theory Spec2Isabelle
  imports Complex_Main "HOL-Library.Multiset" "HOL-Library.Sublist"
begin

section \<open>HTTP-Frequency: the probing engine of \<^verbatim>\<open>py1.py\<close>\<close>

subsection \<open>Data model\<close>

text \<open>
  The dataclass \<^verbatim>\<open>ProbeResult\<close>. Python's \<^verbatim>\<open>float\<close> readings of
  \<^verbatim>\<open>time.perf_counter()\<close> are finite and only subtracted and compared here; they
  are read as reals. \<^verbatim>\<open>Optional[T]\<close> is \<open>T option\<close>.
\<close>

record ProbeResult =
  url :: string
  ok :: bool
  status :: "int option"
  elapsed_s :: "real option"
  bytes_rcv :: "nat option"
  final_url :: "string option"
  error :: "string option"

text \<open>
  What the program sees of the libraries it calls. An exception is known to the program by
  two things only: whether it is an instance of \<^verbatim>\<open>httpx.HTTPError\<close> (the class the
  \<^verbatim>\<open>except\<close> clause of \<^verbatim>\<open>fetch_one\<close> names) and the name of its class.
  \<open>ValueError\<close> is what \<^verbatim>\<open>asyncio.Semaphore\<close> raises for a negative initial
  value, \<open>EOFError\<close> what \<^verbatim>\<open>input\<close> raises at the end of the input.
\<close>

datatype py_exception =
    HTTPError string
  | OtherException string
  | ValueError
  | EOFError

text \<open>
  The fields of an \<^verbatim>\<open>httpx.Response\<close> that \<^verbatim>\<open>fetch_one\<close> reads.
\<close>

record response =
  status_code :: int
  content :: "string option"
  resp_url :: string

datatype request_outcome = Responded response | Raised py_exception

text \<open>
  One call of \<^verbatim>\<open>fetch_one\<close> observes the clock twice and the outcome of the awaited
  \<^verbatim>\<open>client.request(method, url)\<close> once. A client maps the method and the URL to
  these observations.
\<close>

record observation =
  t_before :: real
  answer :: request_outcome
  t_after :: real

type_synonym client = "string \<Rightarrow> string \<Rightarrow> observation"

subsection \<open>The probe unit: \<^verbatim>\<open>fetch_one\<close>\<close>

text \<open>
  Lines 20 to 44. The \<^verbatim>\<open>try\<close> block returns the success record; the
  \<^verbatim>\<open>except httpx.HTTPError\<close> clause returns the failure record; every other
  exception leaves the function (\<open>Inl\<close>).
\<close>

definition fetch_one :: "client \<Rightarrow> string \<Rightarrow> string \<Rightarrow> py_exception + ProbeResult" where
  "fetch_one client u method =
     (let start = t_before (client method u) in
      case answer (client method u) of
        Responded r \<Rightarrow>
          (let elapsed = t_after (client method u) - start;
               body = (case content r of Some b \<Rightarrow> b | None \<Rightarrow> [])
           in Inr \<lparr> url = u,
                    ok = (status_code r < 400),
                    status = Some (status_code r),
                    elapsed_s = Some elapsed,
                    bytes_rcv = Some (length body),
                    final_url = Some (resp_url r),
                    error = None \<rparr>)
      | Raised e \<Rightarrow>
          (case e of
             HTTPError cls \<Rightarrow>
               Inr \<lparr> url = u,
                     ok = False,
                     status = None,
                     elapsed_s = None,
                     bytes_rcv = None,
                     final_url = None,
                     error = Some cls \<rparr>
           | _ \<Rightarrow> Inl e))"

subsection \<open>The dispatcher: \<^verbatim>\<open>run_probe\<close>\<close>

text \<open>
  Lines 47 to 61. \<^verbatim>\<open>run_probe\<close> creates one task for each URL and awaits
  \<^verbatim>\<open>asyncio.gather\<close> over them. The tasks run on one event loop, so between two
  \<^verbatim>\<open>await\<close>s a task runs alone, and a run is a sequence of atomic events. A task
  \<^verbatim>\<open>bound_fetch(u)\<close> passes through these phases:
  \<^item> \<open>Waiting\<close>: created, or suspended in the \<^verbatim>\<open>acquire\<close> of \<^verbatim>\<open>async with sem\<close>;
  \<^item> \<open>Running\<close>: inside \<^verbatim>\<open>async with sem\<close>, its request issued and awaited;
  \<^item> \<open>Done r\<close>: \<^verbatim>\<open>fetch_one\<close> returned \<open>r\<close> and the semaphore is released;
  \<^item> \<open>Failed e\<close>: \<^verbatim>\<open>fetch_one\<close> raised \<open>e\<close> and the semaphore is released.
\<close>

datatype phase = Waiting | Running | Done ProbeResult | Failed py_exception

text \<open>
  The state of a run: the value of the \<^verbatim>\<open>asyncio.Semaphore\<close> and the tasks in the
  order of their creation, each with the URL it was created for.
\<close>

record state =
  sem :: int
  tasks :: "(string \<times> phase) list"

text \<open>
  The events of a run. \<open>Acquire i\<close>: task \<open>i\<close> gets through \<^verbatim>\<open>sem.acquire()\<close>
  and calls \<^verbatim>\<open>fetch_one\<close>, which issues the request. \<open>Finish i ob\<close>: the request
  of task \<open>i\<close> ends, \<open>ob\<close> being what that call of \<^verbatim>\<open>fetch_one\<close> observes, and
  the task leaves \<^verbatim>\<open>async with sem\<close>. Which event comes next is the choice of the
  event loop and of the network: a schedule is a list of events.
\<close>

datatype event = Acquire nat | Finish nat observation

text \<open>
  \<^verbatim>\<open>await asyncio.gather(*tasks)\<close> (line 61, without \<^verbatim>\<open>return_exceptions\<close>): as
  soon as a task has raised, the exception goes to the caller; when all tasks have
  returned, the list of their results in the order of the tasks; until then the caller
  waits (\<open>None\<close>). A run stops at the first exception, so at most one task has failed.
\<close>

fun first_failure :: "(string \<times> phase) list \<Rightarrow> py_exception option" where
  "first_failure [] = None"
| "first_failure ((u, Failed e) # ts) = Some e"
| "first_failure (t # ts) = first_failure ts"

fun collect :: "(string \<times> phase) list \<Rightarrow> ProbeResult list option" where
  "collect [] = Some []"
| "collect ((u, Done r) # ts) = (case collect ts of None \<Rightarrow> None | Some rs \<Rightarrow> Some (r # rs))"
| "collect (t # ts) = None"

definition gather :: "state \<Rightarrow> (py_exception + ProbeResult list) option" where
  "gather s =
     (case first_failure (tasks s) of
        Some e \<Rightarrow> Some (Inl e)
      | None \<Rightarrow> (case collect (tasks s) of None \<Rightarrow> None | Some rs \<Rightarrow> Some (Inr rs)))"

text \<open>
  An event can happen while \<^verbatim>\<open>gather\<close> is still awaited: a waiting task acquires
  only when the semaphore's value is positive (\<^verbatim>\<open>acquire\<close> suspends at 0), and only a
  running task finishes. Any waiting task may be the one that acquires: the order in which
  the semaphore wakes its waiters is one of the schedules.
\<close>

definition enabled :: "state \<Rightarrow> event \<Rightarrow> bool" where
  "enabled s ev =
     (gather s = None \<and>
      (case ev of
         Acquire i \<Rightarrow> i < length (tasks s) \<and> snd (tasks s ! i) = Waiting \<and> 0 < sem s
       | Finish i ob \<Rightarrow> i < length (tasks s) \<and> snd (tasks s ! i) = Running))"

text \<open>
  Lines 56 to 58, from the moment the request ends: \<^verbatim>\<open>bound_fetch\<close> returns what
  \<^verbatim>\<open>fetch_one(client, u, method)\<close> returns, or raises what it raises.
\<close>

definition bound_fetch :: "observation \<Rightarrow> string \<Rightarrow> string \<Rightarrow> phase" where
  "bound_fetch ob u method =
     (case fetch_one (\<lambda>m v. ob) u method of Inr r \<Rightarrow> Done r | Inl e \<Rightarrow> Failed e)"

text \<open>
  One event. Acquiring takes one from the semaphore's value; leaving
  \<^verbatim>\<open>async with sem\<close> gives it back, on a return and on an exception alike. An event
  that cannot happen in the state leaves it as it is.
\<close>

definition step :: "string \<Rightarrow> state \<Rightarrow> event \<Rightarrow> state" where
  "step method s ev =
     (if \<not> enabled s ev then s
      else case ev of
        Acquire i \<Rightarrow>
          s\<lparr> sem := sem s - 1, tasks := (tasks s)[i := (fst (tasks s ! i), Running)] \<rparr>
      | Finish i ob \<Rightarrow>
          s\<lparr> sem := sem s + 1,
             tasks := (tasks s)[i := (fst (tasks s ! i), bound_fetch ob (fst (tasks s ! i)) method)] \<rparr>)"

definition exec :: "string \<Rightarrow> state \<Rightarrow> event list \<Rightarrow> state" where
  "exec method s evs = foldl (step method) s evs"

text \<open>
  Lines 48 and 60: the semaphore with the value \<^verbatim>\<open>concurrency\<close>, and one task for
  each URL, in the order of the list.
\<close>

definition init :: "string list \<Rightarrow> int \<Rightarrow> state" where
  "init urls concurrency = \<lparr> sem = concurrency, tasks = map (\<lambda>u. (u, Waiting)) urls \<rparr>"

text \<open>
  \<^verbatim>\<open>run_probe\<close> under a schedule. \<^verbatim>\<open>asyncio.Semaphore(concurrency)\<close> raises
  \<^verbatim>\<open>ValueError\<close> for a negative value, before the client and the tasks exist. The
  timeout is handed to \<^verbatim>\<open>httpx.Timeout\<close>, which takes any number: it reaches the
  run only through what the requests of the schedule observe. \<open>Pending\<close>: after the
  schedule, \<^verbatim>\<open>gather\<close> is still awaited.
\<close>

datatype outcome = Returned "ProbeResult list" | Raises py_exception | Pending

definition run_probe :: "event list \<Rightarrow> string list \<Rightarrow> int \<Rightarrow> real \<Rightarrow> string \<Rightarrow> outcome" where
  "run_probe evs urls concurrency timeout method =
     (if concurrency < 0 then Raises ValueError
      else case gather (exec method (init urls concurrency) evs) of
             None \<Rightarrow> Pending
           | Some (Inl e) \<Rightarrow> Raises e
           | Some (Inr rs) \<Rightarrow> Returned rs)"

subsection \<open>Measures of a run\<close>



text \<open>The events a task still has before it: two when waiting, one when running.\<close>

fun weight :: "phase \<Rightarrow> nat" where
  "weight Waiting = 2"
| "weight Running = 1"
| "weight (Done r) = 0"
| "weight (Failed e) = 0"

definition work :: "state \<Rightarrow> nat" where
  "work s = sum_list (map (\<lambda>t. weight (snd t)) (tasks s))"





text \<open>
  Every finished task holds what \<^verbatim>\<open>fetch_one\<close> made, for the task's URL, of an
  observation that the schedule gave to this task.
\<close>

definition traced :: "string \<Rightarrow> event list \<Rightarrow> state \<Rightarrow> bool" where
  "traced m evs s =
     (\<forall>i<length (tasks s). \<forall>r. snd (tasks s ! i) = Done r \<longrightarrow>
        (\<exists>ob. Finish i ob \<in> set evs \<and> fetch_one (\<lambda>m' v. ob) (fst (tasks s ! i)) m = Inr r))"

subsection \<open>Input collection: \<^verbatim>\<open>get_urls_from_input\<close>\<close>

text \<open>
  Lines 64 to 85. The console is a list of the lines still to be read: \<^verbatim>\<open>input\<close>
  takes the first one, and raises \<^verbatim>\<open>EOFError\<close> when none is left. What the
  function prints is not part of the model. Strings are lists of 8-bit characters;
  \<open>is_space\<close> is \<^verbatim>\<open>str.isspace\<close> on that range.
\<close>

definition is_space :: "char \<Rightarrow> bool" where
  "is_space ch = ((of_char ch :: nat) \<in> {9, 10, 11, 12, 13, 28, 29, 30, 31, 32, 133, 160})"

definition strip :: "string \<Rightarrow> string" where
  "strip s = rev (dropWhile is_space (rev (dropWhile is_space s)))"

definition startswith :: "string \<Rightarrow> string \<Rightarrow> bool" where
  "startswith s p = (take (length p) s = p)"

text \<open>The \<^verbatim>\<open>while True\<close> loop of lines 69 to 76, with the list \<^verbatim>\<open>urls\<close> built so far.\<close>

fun read_urls :: "string list \<Rightarrow> string list \<Rightarrow> py_exception + string list" where
  "read_urls [] urls = Inl EOFError"
| "read_urls (l # console) urls =
     (let linha = strip l in
      if linha = [] then Inr urls
      else let linha' = (if \<not> (startswith linha ''http://'' \<or> startswith linha ''https://'')
                         then ''https://'' @ linha else linha)
           in read_urls console (urls @ [linha']))"

text \<open>The \<^verbatim>\<open>for u in urls\<close> loop of lines 79 to 84, with \<^verbatim>\<open>seen\<close> and \<^verbatim>\<open>uniq\<close>.\<close>

fun dedup :: "string list \<Rightarrow> string set \<Rightarrow> string list \<Rightarrow> string list" where
  "dedup [] seen uniq = uniq"
| "dedup (u # urls) seen uniq =
     (if u \<notin> seen then dedup urls (insert u seen) (uniq @ [u]) else dedup urls seen uniq)"

definition get_urls_from_input :: "string list \<Rightarrow> py_exception + string list" where
  "get_urls_from_input console =
     (case read_urls console [] of
        Inl e \<Rightarrow> Inl e
      | Inr urls \<Rightarrow> Inr (dedup urls {} []))"

text \<open>
  The entries the user typed: the stripped lines before the first blank one. And, as the
  specification puts it, a list with its duplicates removed in the order of first
  occurrence: the element at a position stays when it does not occur before that position.
\<close>

definition entries :: "string list \<Rightarrow> string list" where
  "entries console = takeWhile (\<lambda>l. l \<noteq> []) (map strip console)"

definition first_occurrences :: "'a list \<Rightarrow> 'a list" where
  "first_occurrences xs =
     map (\<lambda>i. xs ! i) (filter (\<lambda>i. xs ! i \<notin> set (take i xs)) [0..<length xs])"

subsection \<open>Report rendering: \<^verbatim>\<open>print_report\<close>\<close>









subsection \<open>Example observations and results\<close>

definition ob_ok :: observation where
  "ob_ok = \<lparr> t_before = 1,
             answer = Responded \<lparr> status_code = 200, content = Some ''hello'',
                                  resp_url = ''https://a.example/'' \<rparr>,
             t_after = 3 \<rparr>"

definition ob_timeout :: observation where
  "ob_timeout = \<lparr> t_before = 1, answer = Raised (HTTPError ''ConnectTimeout''), t_after = 6 \<rparr>"


definition res_ok :: "string \<Rightarrow> ProbeResult" where
  "res_ok u = \<lparr> url = u, ok = True, status = Some 200, elapsed_s = Some 2, bytes_rcv = Some 5,
               final_url = Some ''https://a.example/'', error = None \<rparr>"

definition res_timeout :: "string \<Rightarrow> ProbeResult" where
  "res_timeout u = \<lparr> url = u, ok = False, status = None, elapsed_s = None, bytes_rcv = None,
                    final_url = None, error = Some ''ConnectTimeout'' \<rparr>"







section \<open>Properties of \<^verbatim>\<open>fetch_one\<close>\<close>

lemma fetch_one_cases:
  assumes "fetch_one client u method = Inr r"
  shows "(\<exists>rsp. answer (client method u) = Responded rsp \<and>
            r = \<lparr> url = u, ok = (status_code rsp < 400), status = Some (status_code rsp),
                  elapsed_s = Some (t_after (client method u) - t_before (client method u)),
                  bytes_rcv = Some (length (case content rsp of Some b \<Rightarrow> b | None \<Rightarrow> [])),
                  final_url = Some (resp_url rsp), error = None \<rparr>)
       \<or> (\<exists>cls. answer (client method u) = Raised (HTTPError cls) \<and>
            r = \<lparr> url = u, ok = False, status = None, elapsed_s = None, bytes_rcv = None,
                  final_url = None, error = Some cls \<rparr>)"
  using assms
  by (auto simp: fetch_one_def Let_def split: request_outcome.splits py_exception.splits)

lemma fetch_one_url: "fetch_one client u method = Inr r \<Longrightarrow> url r = u"
  by (drule fetch_one_cases) auto

text \<open>
  C3. Every ProbeResult returned by \<^verbatim>\<open>fetch_one\<close> has \<open>ok\<close> true exactly when
  \<open>status\<close> is present and below 400; and when \<open>ok\<close> is true, \<open>error\<close> is absent and
  \<open>elapsed_s\<close>, \<open>bytes_rcv\<close> and \<open>final_url\<close> are all present.
\<close>

theorem fetch_one_ok_invariant:
  assumes "fetch_one client u method = Inr r"
  shows "(ok r \<longleftrightarrow> (\<exists>s. status r = Some s \<and> s < 400))
       \<and> (ok r \<longrightarrow> error r = None \<and> elapsed_s r \<noteq> None \<and> bytes_rcv r \<noteq> None \<and> final_url r \<noteq> None)"
  using fetch_one_cases [OF assms] by auto

theorem fetch_one_ok_invariant_witness:
  "fetch_one (\<lambda>m u. \<lparr> t_before = 1, answer = Responded \<lparr> status_code = 200, content = Some ''hello'',
                        resp_url = ''https://a.example/'' \<rparr>, t_after = 3 \<rparr>) ''https://a.example'' ''GET''
     = Inr \<lparr> url = ''https://a.example'', ok = True, status = Some 200, elapsed_s = Some 2,
             bytes_rcv = Some 5, final_url = Some ''https://a.example/'', error = None \<rparr>
   \<and> (ok \<lparr> url = ''https://a.example'', ok = True, status = Some 200, elapsed_s = Some 2,
             bytes_rcv = Some 5, final_url = Some ''https://a.example/'', error = None \<rparr>
        \<longleftrightarrow> (\<exists>s. Some (200::int) = Some s \<and> s < 400))"
proof -
  let ?c = "\<lambda>(m::string) (u::string). \<lparr> t_before = 1, answer = Responded \<lparr> status_code = 200,
              content = Some ''hello'', resp_url = ''https://a.example/'' \<rparr>, t_after = 3 \<rparr>"
  let ?r = "\<lparr> url = ''https://a.example'', ok = True, status = Some 200, elapsed_s = Some 2,
             bytes_rcv = Some 5, final_url = Some ''https://a.example/'', error = None \<rparr>"
  have h: "fetch_one ?c ''https://a.example'' ''GET'' = Inr ?r"
    by (simp add: fetch_one_def)
  from fetch_one_ok_invariant [OF h] h show ?thesis by simp
qed

text \<open>
  C4. The failure split of \<^verbatim>\<open>fetch_one\<close>: a result with \<open>ok\<close> false and a status
  has no \<open>error\<close> (the server answered with a code of 400 or more); a result with \<open>ok\<close>
  false and no status has an \<open>error\<close>, and \<open>elapsed_s\<close>, \<open>bytes_rcv\<close> and
  \<open>final_url\<close> are absent.
\<close>

theorem fetch_one_failure_split:
  assumes "fetch_one client u method = Inr r"
  shows "(\<not> ok r \<and> status r \<noteq> None \<longrightarrow> error r = None)
       \<and> (\<not> ok r \<and> status r = None \<longrightarrow>
            error r \<noteq> None \<and> elapsed_s r = None \<and> bytes_rcv r = None \<and> final_url r = None)"
  using fetch_one_cases [OF assms] by auto

theorem fetch_one_failure_split_witness:
  "fetch_one (\<lambda>m u. \<lparr> t_before = 1, answer = Raised (HTTPError ''ConnectTimeout''), t_after = 3 \<rparr>)
       ''https://a.example'' ''GET''
     = Inr \<lparr> url = ''https://a.example'', ok = False, status = None, elapsed_s = None,
             bytes_rcv = None, final_url = None, error = Some ''ConnectTimeout'' \<rparr>
   \<and> error \<lparr> url = ''https://a.example'', ok = False, status = None, elapsed_s = None,
             bytes_rcv = None, final_url = None, error = Some ''ConnectTimeout'' \<rparr> \<noteq> None
   \<and> fetch_one (\<lambda>m u. \<lparr> t_before = 1, answer = Responded \<lparr> status_code = 404, content = None,
                            resp_url = ''https://a.example/x'' \<rparr>, t_after = 3 \<rparr>)
       ''https://a.example/x'' ''GET''
     = Inr \<lparr> url = ''https://a.example/x'', ok = False, status = Some 404, elapsed_s = Some 2,
             bytes_rcv = Some 0, final_url = Some ''https://a.example/x'', error = None \<rparr>
   \<and> error \<lparr> url = ''https://a.example/x'', ok = False, status = Some 404, elapsed_s = Some 2,
             bytes_rcv = Some 0, final_url = Some ''https://a.example/x'', error = None \<rparr> = None"
proof -
  let ?c = "\<lambda>(m::string) (u::string).
              \<lparr> t_before = 1, answer = Raised (HTTPError ''ConnectTimeout''), t_after = 3 \<rparr>"
  let ?r = "\<lparr> url = ''https://a.example'', ok = False, status = None, elapsed_s = None,
             bytes_rcv = None, final_url = None, error = Some ''ConnectTimeout'' \<rparr>"
  let ?c' = "\<lambda>(m::string) (u::string).
              \<lparr> t_before = 1, answer = Responded \<lparr> status_code = 404, content = None,
                                 resp_url = ''https://a.example/x'' \<rparr>, t_after = 3 \<rparr>"
  let ?r' = "\<lparr> url = ''https://a.example/x'', ok = False, status = Some 404, elapsed_s = Some 2,
             bytes_rcv = Some 0, final_url = Some ''https://a.example/x'', error = None \<rparr>"
  have h: "fetch_one ?c ''https://a.example'' ''GET'' = Inr ?r"
    by (simp add: fetch_one_def)
  have h': "fetch_one ?c' ''https://a.example/x'' ''GET'' = Inr ?r'"
    by (simp add: fetch_one_def)
  from fetch_one_failure_split [OF h] have "error ?r \<noteq> None" by simp
  moreover from fetch_one_failure_split [OF h'] have "error ?r' = None" by simp
  ultimately show ?thesis using h h' by blast
qed

section \<open>The runs of \<^verbatim>\<open>run_probe\<close>\<close>

lemma exec_Nil [simp]: "exec m s [] = s"
  by (simp add: exec_def)

lemma exec_Cons [simp]: "exec m s (ev # evs) = exec m (step m s ev) evs"
  by (simp add: exec_def)

lemma exec_snoc: "exec m s (evs @ [ev]) = step m (exec m s evs) ev"
  by (simp add: exec_def)




lemma map_fst_update: "i < length xs \<Longrightarrow> map fst (xs[i := (fst (xs ! i), p)]) = map fst xs"
  by (simp add: map_update list_update_same_conv)

lemma step_urls: "map fst (tasks (step m s ev)) = map fst (tasks s)"
  by (cases ev) (auto simp: step_def enabled_def map_fst_update)

lemma exec_urls: "map fst (tasks (exec m s evs)) = map fst (tasks s)"
  by (induction evs arbitrary: s) (simp_all add: step_urls)

lemma step_acquire:
  assumes "enabled s (Acquire i)"
  shows "step m s (Acquire i) = s\<lparr> sem := sem s - 1, tasks := (tasks s)[i := (fst (tasks s ! i), Running)] \<rparr>"
  using assms by (simp add: step_def)

lemma step_finish:
  assumes "enabled s (Finish i ob)"
  shows "step m s (Finish i ob) =
           s\<lparr> sem := sem s + 1,
              tasks := (tasks s)[i := (fst (tasks s ! i), bound_fetch ob (fst (tasks s ! i)) m)] \<rparr>"
  using assms by (simp add: step_def)








lemma tasks_init: "map fst (tasks (init urls c)) = urls"
  by (simp add: init_def comp_def)


lemma collect_Some: "collect ts = Some rs \<Longrightarrow> map snd ts = map Done rs"
  by (induction ts arbitrary: rs rule: collect.induct) (auto split: option.splits)




lemma gather_Returned:
  assumes "gather s = Some (Inr rs)"
  shows "map snd (tasks s) = map Done rs"
  using assms by (auto simp: gather_def split: option.splits dest: collect_Some)






lemma work_zero:
  assumes "work s = 0" and "t \<in> set (tasks s)"
  shows "(\<exists>r. snd t = Done r) \<or> (\<exists>e. snd t = Failed e)"
proof -
  from assms have "weight (snd t) = 0" by (auto simp: work_def)
  then show ?thesis by (cases "snd t") auto
qed

lemma work_pos:
  assumes "i < length (tasks s)" and "snd (tasks s ! i) = Waiting \<or> snd (tasks s ! i) = Running"
  shows "0 < work s"
proof (rule ccontr)
  assume "\<not> 0 < work s"
  then have "work s = 0" by simp
  from work_zero [OF this, of "tasks s ! i"] assms show False by auto
qed






lemma bound_fetch_Done: "bound_fetch ob u m = Done r \<Longrightarrow> fetch_one (\<lambda>m' v. ob) u m = Inr r"
  by (simp add: bound_fetch_def split: sum.splits)

lemma step_traced:
  assumes "traced m evs s"
  shows "traced m (evs @ [ev]) (step m s ev)"
proof (cases "enabled s ev")
  case False
  with assms show ?thesis by (fastforce simp: step_def traced_def)
next
  case en: True
  show ?thesis
  proof (cases ev)
    case (Acquire i)
    show ?thesis
      unfolding traced_def
    proof (intro allI impI)
      fix k r
      assume k: "k < length (tasks (step m s ev))" and d: "snd (tasks (step m s ev) ! k) = Done r"
      from k en Acquire have k': "k < length (tasks s)" by (simp add: step_acquire)
      from d k' en Acquire have ki: "k \<noteq> i"
        by (auto simp: step_acquire)
      with d k' en Acquire have "snd (tasks s ! k) = Done r"
        by (simp add: step_acquire)
      with assms k' obtain ob' where
        "Finish k ob' \<in> set evs" "fetch_one (\<lambda>m' v. ob') (fst (tasks s ! k)) m = Inr r"
        by (auto simp: traced_def)
      with ki k' en Acquire
      show "\<exists>ob. Finish k ob \<in> set (evs @ [ev]) \<and>
                 fetch_one (\<lambda>m' v. ob) (fst (tasks (step m s ev) ! k)) m = Inr r"
        by (auto simp: step_acquire)
    qed
  next
    case (Finish i ob)
    show ?thesis
      unfolding traced_def
    proof (intro allI impI)
      fix k r
      assume k: "k < length (tasks (step m s ev))" and d: "snd (tasks (step m s ev) ! k) = Done r"
      from k en Finish have k': "k < length (tasks s)" by (simp add: step_finish)
      show "\<exists>ob. Finish k ob \<in> set (evs @ [ev]) \<and>
                 fetch_one (\<lambda>m' v. ob) (fst (tasks (step m s ev) ! k)) m = Inr r"
      proof (cases "k = i")
        case True
        with d k' en Finish have "bound_fetch ob (fst (tasks s ! i)) m = Done r"
          by (simp add: step_finish)
        from bound_fetch_Done [OF this] True k' en Finish show ?thesis
          by (auto simp: step_finish)
      next
        case False
        with d k' en Finish have "snd (tasks s ! k) = Done r"
          by (simp add: step_finish)
        with assms k' obtain ob' where
          "Finish k ob' \<in> set evs" "fetch_one (\<lambda>m' v. ob') (fst (tasks s ! k)) m = Inr r"
          by (auto simp: traced_def)
        with False k' en Finish show ?thesis
          by (auto simp: step_finish)
      qed
    qed
  qed
qed

lemma exec_traced: "traced m evs (exec m (init urls c) evs)"
proof (induction evs rule: rev_induct)
  case Nil
  show ?case by (simp add: traced_def init_def)
next
  case (snoc ev evs)
  then show ?case by (simp add: exec_snoc step_traced)
qed

lemma run_probe_Returned:
  assumes "run_probe evs urls c t m = Returned rs"
  shows "gather (exec m (init urls c) evs) = Some (Inr rs)"
  using assms by (auto simp: run_probe_def split: if_splits option.splits sum.splits)


lemma returned_results:
  assumes "run_probe evs urls c t m = Returned rs"
  shows "length rs = length urls"
    and "\<forall>i<length urls. \<exists>ob. Finish i ob \<in> set evs \<and>
            fetch_one (\<lambda>m' v. ob) (urls ! i) m = Inr (rs ! i)"
proof -
  let ?s = "exec m (init urls c) evs"
  have u: "map fst (tasks ?s) = urls"
    by (simp add: exec_urls tasks_init)
  have d: "map snd (tasks ?s) = map Done rs"
    by (rule gather_Returned [OF run_probe_Returned [OF assms]])
  from u have lu: "length (tasks ?s) = length urls"
    by (metis length_map)
  from d have lr: "length (tasks ?s) = length rs"
    by (metis length_map)
  from lu lr show "length rs = length urls" by simp
  show "\<forall>i<length urls. \<exists>ob. Finish i ob \<in> set evs \<and>
            fetch_one (\<lambda>m' v. ob) (urls ! i) m = Inr (rs ! i)"
  proof (intro allI impI)
    fix i assume i: "i < length urls"
    with lu have i': "i < length (tasks ?s)" by simp
    from i' lr have "map snd (tasks ?s) ! i = map Done rs ! i" using d by simp
    with i' lr have dn: "snd (tasks ?s ! i) = Done (rs ! i)" by simp
    from i' have "map fst (tasks ?s) ! i = fst (tasks ?s ! i)" by simp
    with u have fu: "fst (tasks ?s ! i) = urls ! i" by simp
    from exec_traced [of m evs urls c] i' dn fu
    show "\<exists>ob. Finish i ob \<in> set evs \<and> fetch_one (\<lambda>m' v. ob) (urls ! i) m = Inr (rs ! i)"
      by (auto simp: traced_def)
  qed
qed

lemma returned_urls:
  assumes "run_probe evs urls c t m = Returned rs"
  shows "map url rs = urls"
proof (rule nth_equalityI)
  show "length (map url rs) = length urls"
    using returned_results(1) [OF assms] by simp
next
  fix i assume "i < length (map url rs)"
  then have i: "i < length urls" "i < length rs"
    using returned_results(1) [OF assms] by simp_all
  from returned_results(2) [OF assms] i(1) obtain ob where
    "fetch_one (\<lambda>m' v. ob) (urls ! i) m = Inr (rs ! i)" by blast
  from fetch_one_url [OF this] i(2) show "map url rs ! i = urls ! i" by simp
qed

lemma step_finished: "gather s \<noteq> None \<Longrightarrow> step m s ev = s"
  by (simp add: step_def enabled_def)

lemma exec_finished: "gather s \<noteq> None \<Longrightarrow> exec m s evs = s"
  by (induction evs arbitrary: s) (simp_all add: step_finished)







section \<open>Properties of \<^verbatim>\<open>run_probe\<close>\<close>

lemmas run_defs =
  run_probe_def exec_def init_def step_def enabled_def gather_def bound_fetch_def fetch_one_def



text \<open>
  C10. The list returned by \<^verbatim>\<open>run_probe\<close> is in input order: it is as long as the
  URL list, and its i-th result carries the i-th input URL, whatever the order in which the
  tasks acquired the semaphore and finished.
\<close>

theorem run_probe_preserves_order:
  assumes "run_probe evs urls c t m = Returned rs"
  shows "length rs = length urls \<and> (\<forall>i<length urls. url (rs ! i) = urls ! i)"
proof (intro conjI allI impI)
  show l: "length rs = length urls" by (rule returned_results(1) [OF assms])
  fix i assume i: "i < length urls"
  from returned_urls [OF assms] have "map url rs ! i = urls ! i" by simp
  with i l show "url (rs ! i) = urls ! i" by simp
qed

theorem run_probe_preserves_order_witness:
  "run_probe [Acquire 1, Acquire 0, Finish 1 ob_timeout, Finish 0 ob_ok]
       [''https://a.example'', ''https://b.example''] 2 5 ''GET''
     = Returned [res_ok ''https://a.example'', res_timeout ''https://b.example'']
   \<and> url ([res_ok ''https://a.example'', res_timeout ''https://b.example''] ! 0) = ''https://a.example''
   \<and> url ([res_ok ''https://a.example'', res_timeout ''https://b.example''] ! 1) = ''https://b.example''"
proof -
  let ?evs = "[Acquire 1, Acquire 0, Finish 1 ob_timeout, Finish 0 ob_ok]"
  let ?urls = "[''https://a.example'', ''https://b.example'']"
  let ?rs = "[res_ok ''https://a.example'', res_timeout ''https://b.example'']"
  have r: "run_probe ?evs ?urls 2 5 ''GET'' = Returned ?rs"
    by (simp add: run_defs ob_ok_def ob_timeout_def res_ok_def res_timeout_def)
  from run_probe_preserves_order [OF r]
  have a: "\<forall>i<length ?urls. url (?rs ! i) = ?urls ! i" by blast
  from a [rule_format, of 0] a [rule_format, of 1]
  have "url (?rs ! 0) = ?urls ! 0" and "url (?rs ! 1) = ?urls ! 1" by simp_all
  with r show ?thesis by simp
qed

text \<open>
  C7. With an empty URL list \<^verbatim>\<open>run_probe\<close> does not hang: whatever the schedule, a
  negative concurrency is rejected with the semaphore's \<open>ValueError\<close>, and any other
  concurrency returns the empty list.
\<close>

theorem run_probe_empty:
  "run_probe evs [] c t m = (if c < 0 then Raises ValueError else Returned [])"
proof -
  have "gather (init [] c) = Some (Inr [])"
    by (simp add: gather_def init_def)
  then have "exec m (init [] c) evs = init [] c" and "gather (init [] c) = Some (Inr [])"
    by (simp_all add: exec_finished)
  then show ?thesis by (simp add: run_probe_def)
qed

theorem run_probe_empty_witness:
  "run_probe [Acquire 0, Finish 0 ob_ok] [] 5 5 ''GET'' = Returned []
   \<and> run_probe [] [] (- 1) 5 ''GET'' = Raises ValueError"
  using run_probe_empty [of "[Acquire 0, Finish 0 ob_ok]" 5 5 "''GET''"]
        run_probe_empty [of "[]" "- 1" 5 "''GET''"]
  by simp









section \<open>Properties of \<^verbatim>\<open>get_urls_from_input\<close>\<close>

lemma startswith_prefix: "startswith s p \<longleftrightarrow> prefix p s"
proof
  assume "startswith s p"
  then have "s = p @ drop (length p) s"
    by (metis append_take_drop_id startswith_def)
  then show "prefix p s" by (metis prefixI)
next
  assume "prefix p s"
  then obtain zs where "s = p @ zs" by (auto simp: prefix_def)
  then show "startswith s p" by (simp add: startswith_def)
qed

lemma read_urls_eq:
  "read_urls console acc =
     (if \<exists>l\<in>set console. strip l = []
      then Inr (acc @ map (\<lambda>l. if prefix ''http://'' l \<or> prefix ''https://'' l then l
                               else ''https://'' @ l) (entries console))
      else Inl EOFError)"
proof (induction console arbitrary: acc)
  case Nil
  show ?case by (simp add: entries_def)
next
  case (Cons l console)
  show ?case
  proof (cases "strip l = []")
    case True
    then show ?thesis by (simp add: entries_def)
  next
    case False
    then show ?thesis
      using Cons.IH by (simp add: entries_def Let_def startswith_prefix)
  qed
qed

lemma dedup_append:
  "dedup (xs @ ys) (set acc) acc = dedup ys (set (dedup xs (set acc) acc)) (dedup xs (set acc) acc)"
proof (induction xs arbitrary: acc)
  case Nil
  show ?case by simp
next
  case (Cons x xs)
  show ?case
  proof (cases "x \<in> set acc")
    case True
    with Cons.IH [of acc] show ?thesis by simp
  next
    case False
    with Cons.IH [of "acc @ [x]"] show ?thesis by simp
  qed
qed

lemma set_dedup: "set (dedup xs (set acc) acc) = set acc \<union> set xs"
proof (induction xs arbitrary: acc)
  case Nil
  show ?case by simp
next
  case (Cons x xs)
  show ?case
  proof (cases "x \<in> set acc")
    case True
    with Cons.IH [of acc] show ?thesis by auto
  next
    case False
    with Cons.IH [of "acc @ [x]"] show ?thesis by auto
  qed
qed

lemma dedup_snoc:
  "dedup (xs @ [x]) {} [] = dedup xs {} [] @ (if x \<in> set xs then [] else [x])"
  using dedup_append [of xs "[x]" "[]"] set_dedup [of xs "[]"] by simp

lemma first_occurrences_Nil: "first_occurrences [] = []"
  by (simp add: first_occurrences_def)

lemma first_occurrences_snoc:
  "first_occurrences (xs @ [x]) = first_occurrences xs @ (if x \<in> set xs then [] else [x])"
proof -
  let ?n = "length xs"
  let ?P = "\<lambda>i. (xs @ [x]) ! i \<notin> set (take i (xs @ [x]))"
  have up: "[0..<length (xs @ [x])] = [0..<?n] @ [?n]" by simp
  have f: "filter ?P [0..<?n] = filter (\<lambda>i. xs ! i \<notin> set (take i xs)) [0..<?n]"
    by (rule filter_cong) (auto simp: nth_append)
  have m: "map (\<lambda>i. (xs @ [x]) ! i) (filter (\<lambda>i. xs ! i \<notin> set (take i xs)) [0..<?n])
             = map (\<lambda>i. xs ! i) (filter (\<lambda>i. xs ! i \<notin> set (take i xs)) [0..<?n])"
    by (rule map_cong) (auto simp: nth_append)
  have l: "map (\<lambda>i. (xs @ [x]) ! i) (filter ?P [?n]) = (if x \<in> set xs then [] else [x])"
    by simp
  have "first_occurrences (xs @ [x])
          = map (\<lambda>i. (xs @ [x]) ! i) (filter ?P [0..<?n]) @ map (\<lambda>i. (xs @ [x]) ! i) (filter ?P [?n])"
    unfolding first_occurrences_def up by (simp only: filter_append map_append)
  also have "\<dots> = first_occurrences xs @ (if x \<in> set xs then [] else [x])"
    unfolding first_occurrences_def by (simp only: f m l)
  finally show ?thesis .
qed

lemma dedup_first_occurrences: "dedup xs {} [] = first_occurrences xs"
proof (induction xs rule: rev_induct)
  case Nil
  show ?case by (simp add: first_occurrences_Nil)
next
  case (snoc x xs)
  then show ?case by (simp only: dedup_snoc first_occurrences_snoc)
qed

lemma set_first_occurrences: "set (first_occurrences xs) = set xs"
proof (induction xs rule: rev_induct)
  case Nil
  show ?case by (simp add: first_occurrences_Nil)
next
  case (snoc x xs)
  then show ?case by (auto simp: first_occurrences_snoc)
qed

lemma distinct_first_occurrences: "distinct (first_occurrences xs)"
proof (induction xs rule: rev_induct)
  case Nil
  show ?case by (simp add: first_occurrences_Nil)
next
  case (snoc x xs)
  then show ?case by (simp add: first_occurrences_snoc set_first_occurrences)
qed

text \<open>
  C8. When the console holds a blank line, \<^verbatim>\<open>get_urls_from_input\<close> returns the
  entries typed before it, each entry that starts with neither \<^verbatim>\<open>http://\<close> nor
  \<^verbatim>\<open>https://\<close> with \<^verbatim>\<open>https://\<close> in front and every other entry as typed, with
  the duplicates removed in the order of first occurrence: the list has no duplicates and
  holds exactly the entries so completed.
\<close>

theorem get_urls_from_input_normalised:
  assumes "\<exists>l\<in>set console. strip l = []"
  shows "\<exists>us. get_urls_from_input console = Inr us
       \<and> us = first_occurrences
                (map (\<lambda>l. if prefix ''http://'' l \<or> prefix ''https://'' l then l
                          else ''https://'' @ l) (entries console))
       \<and> distinct us
       \<and> set us = (\<lambda>l. if prefix ''http://'' l \<or> prefix ''https://'' l then l
                        else ''https://'' @ l) ` set (entries console)"
  using assms
  by (simp add: get_urls_from_input_def read_urls_eq dedup_first_occurrences
        set_first_occurrences distinct_first_occurrences)

theorem get_urls_from_input_normalised_witness:
  "get_urls_from_input [''  a.com '', ''http://b.com'', ''a.com'', ''https://a.com'', ''HTTP://c'',
                        ''  '', ''ignored.example'']
     = Inr [''https://a.com'', ''http://b.com'', ''https://HTTP://c'']"
proof -
  let ?console = "[''  a.com '', ''http://b.com'', ''a.com'', ''https://a.com'', ''HTTP://c'',
                   ''  '', ''ignored.example'']"
  have e: "entries ?console = [''a.com'', ''http://b.com'', ''a.com'', ''https://a.com'', ''HTTP://c'']"
    by (simp add: entries_def strip_def is_space_def)
  have b: "\<exists>l\<in>set ?console. strip l = []"
    by (simp add: strip_def is_space_def)
  from get_urls_from_input_normalised [OF b] e show ?thesis
    by (auto simp: first_occurrences_def upt_rec [of _ "numeral _"] upt_rec [of _ "Suc _"])
qed

section \<open>Properties of \<^verbatim>\<open>print_report\<close>\<close>















end
